theory Spec2Isabelle
  imports Main
begin

section \<open>Go values: machine integers, panics and slices\<close>

text \<open>
  Go's \<open>int\<close> (64 bits) is modelled as \<open>int\<close>, with the two's complement wrap-around
  written out by \<open>wrap64\<close> wherever an operand comes from the caller (an index, a
  size, a count) or the result can pass the largest \<open>int\<close>. A counter that only
  numbers the positions or the elements of one slice stays within the length of that
  slice and is left unwrapped; where it only indexes, it is a natural number.
\<close>

definition max_int :: int where
  "max_int = 2 ^ 63 - 1"

definition wrap64 :: "int \<Rightarrow> int" where
  "wrap64 x = (x + 2 ^ 63) mod 2 ^ 64 - 2 ^ 63"

text \<open>
  A panic is a value: the run-time errors of a slice expression and of an index
  expression, and an explicit \<open>panic(msg)\<close>.
\<close>

datatype panic = SliceBounds | IndexRange | Panic string

text \<open>
  A slice is either nil or a window on a backing array. \<open>Slice es sp\<close> is a non-nil
  slice whose elements are \<open>es\<close> and whose backing array continues with \<open>sp\<close> up to its
  capacity: length \<open>length es\<close>, capacity \<open>length es + length sp\<close>.
\<close>

datatype 'a slice = NilSlice | Slice "'a list" "'a list"

fun elems :: "'a slice \<Rightarrow> 'a list" where
  "elems NilSlice = []"
| "elems (Slice es sp) = es"

fun spare :: "'a slice \<Rightarrow> 'a list" where
  "spare NilSlice = []"
| "spare (Slice es sp) = sp"

definition len :: "'a slice \<Rightarrow> nat" where
  "len s = length (elems s)"

definition cap :: "'a slice \<Rightarrow> nat" where
  "cap s = length (elems s) + length (spare s)"

text \<open>\<open>make([]T, n, c)\<close>: fresh storage filled with the zero value of the element type.\<close>

definition make_slice :: "'a \<Rightarrow> nat \<Rightarrow> nat \<Rightarrow> 'a slice" where
  "make_slice zero n c = Slice (replicate n zero) (replicate (c - n) zero)"

text \<open>
  The slice expression \<open>s[lo:hi]\<close>. It panics unless \<open>0 \<le> lo \<le> hi \<le> cap(s)\<close>; a nil
  operand gives a nil result. \<open>s[lo:]\<close> is \<open>s[lo:len(s)]\<close> and \<open>s[:hi]\<close> is \<open>s[0:hi]\<close>.
\<close>

definition slice_expr :: "'a slice \<Rightarrow> int \<Rightarrow> int \<Rightarrow> panic + 'a slice" where
  "slice_expr s lo hi =
     (if 0 \<le> lo \<and> lo \<le> hi \<and> hi \<le> int (cap s)
      then Inr (case s of
                  NilSlice \<Rightarrow> NilSlice
                | Slice es sp \<Rightarrow>
                    Slice (take (nat hi - nat lo) (drop (nat lo) (es @ sp)))
                          (drop (nat hi) (es @ sp)))
      else Inl SliceBounds)"

text \<open>
  \<open>append(s, xs...)\<close>. When the capacity suffices the elements are stored behind the
  slice in its own backing array; otherwise a new array is allocated (its spare
  capacity is left to the run-time system and is modelled as none).
\<close>

definition go_append :: "'a slice \<Rightarrow> 'a list \<Rightarrow> 'a slice" where
  "go_append s xs =
     (if length xs \<le> length (spare s)
      then (case s of
              NilSlice \<Rightarrow> NilSlice
            | Slice es sp \<Rightarrow> Slice (es @ xs) (drop (length xs) sp))
      else Slice (elems s @ xs) [])"

lemma len_slice_expr:
  "slice_expr s lo hi = Inr t \<Longrightarrow> hi \<le> int (len s) \<Longrightarrow> len t = nat hi - nat lo"
  by (cases s) (auto simp: slice_expr_def len_def split: if_splits)

lemma elems_slice_expr:
  "slice_expr s lo hi = Inr t \<Longrightarrow> hi \<le> int (len s) \<Longrightarrow>
   elems t = take (nat hi - nat lo) (drop (nat lo) (elems s))"
  by (cases s) (auto simp: slice_expr_def len_def split: if_splits)

lemma len_go_append: "len (go_append s xs) = len s + length xs"
  by (cases s) (auto simp: go_append_def len_def)

lemma elems_go_append: "elems (go_append s xs) = elems s @ xs"
  by (cases s) (auto simp: go_append_def)

section \<open>Remove\<close>

text \<open>
  The loop of \<open>Remove\<close>. On a match the slice is rebuilt by
  \<open>append(slice[:i], slice[i+1:]...)\<close> and the source's \<open>i--\<close> followed by the loop's
  \<open>i++\<close> leaves \<open>i\<close> where it is.
\<close>

function Remove_loop :: "'a slice \<Rightarrow> 'a \<Rightarrow> nat \<Rightarrow> int \<Rightarrow> panic + ('a slice \<times> int)" where
  "Remove_loop slice item i removed =
     (if i < len slice then
        (if elems slice ! i = item then
           (case slice_expr slice 0 (int i) of
              Inl e \<Rightarrow> Inl e
            | Inr front \<Rightarrow>
                (case slice_expr slice (int i + 1) (int (len slice)) of
                   Inl e \<Rightarrow> Inl e
                 | Inr rest \<Rightarrow>
                     Remove_loop (go_append front (elems rest)) item i (removed + 1)))
         else Remove_loop slice item (i + 1) removed)
      else Inr (slice, removed))"
  by pat_completeness auto
termination
proof (relation "measure (\<lambda>(slice, item, i, removed). len slice - i)", goal_cases)
  case 1
  show ?case by simp
next
  case (2 slice item i removed front rest)
  have "len front = i"
    using len_slice_expr [OF 2(3)] 2(1) by simp
  moreover have "length (elems rest) = len slice - (i + 1)"
    using len_slice_expr [OF 2(4)] by (simp add: nat_add_distrib len_def)
  ultimately show ?case
    using 2(1) by (simp add: len_go_append)
next
  case 3
  then show ?case by simp
qed

declare Remove_loop.simps [simp del]

definition Remove :: "'a slice \<Rightarrow> 'a \<Rightarrow> panic + ('a slice \<times> int)" where
  "Remove slice item = Remove_loop slice item 0 0"


section \<open>Filter, FindAll and TakeIf\<close>

text \<open>\<open>make([]T, 0)\<close>: a slice of length and capacity 0 that is not nil.\<close>

definition empty_slice :: "'a slice" where
  "empty_slice = Slice [] []"

text \<open>
  An index expression \<open>s[i]\<close> under the loop guard \<open>i < len(s)\<close> is in range and is
  written \<open>elems s ! i\<close>.
\<close>

function Filter_loop :: "'a slice \<Rightarrow> ('a \<Rightarrow> bool) \<Rightarrow> nat \<Rightarrow> 'a slice \<Rightarrow> 'a slice" where
  "Filter_loop s fn i res =
     (if i < len s then
        Filter_loop s fn (i + 1)
          (if fn (elems s ! i) then go_append res [elems s ! i] else res)
      else res)"
  by pat_completeness auto
termination
  by (relation "measure (\<lambda>(s, fn, i, res). len s - i)") auto

declare Filter_loop.simps [simp del]

definition Filter :: "'a slice \<Rightarrow> ('a \<Rightarrow> bool) \<Rightarrow> 'a slice" where
  "Filter s fn = Filter_loop s fn 0 empty_slice"

function FindAll_loop :: "'a slice \<Rightarrow> ('a \<Rightarrow> bool) \<Rightarrow> nat \<Rightarrow> 'a slice \<Rightarrow> 'a slice" where
  "FindAll_loop slice fn i results =
     (if i < len slice then
        FindAll_loop slice fn (i + 1)
          (if fn (elems slice ! i) then go_append results [elems slice ! i] else results)
      else results)"
  by pat_completeness auto
termination
  by (relation "measure (\<lambda>(slice, fn, i, results). len slice - i)") auto

declare FindAll_loop.simps [simp del]

definition FindAll :: "'a slice \<Rightarrow> ('a \<Rightarrow> bool) \<Rightarrow> 'a slice" where
  "FindAll slice fn = FindAll_loop slice fn 0 empty_slice"




section \<open>Chunk\<close>




section \<open>Clone and Insert\<close>

text \<open>
  \<open>copy(dst, src)\<close> where \<open>dst\<close> is the window \<open>parent[off:]\<close>: the first
  \<open>min(len(dst), len(src))\<close> elements of \<open>src\<close> are stored into the backing array of
  \<open>parent\<close> from position \<open>off\<close> on. The elements of \<open>src\<close> are read before any is
  stored, as Go's \<open>copy\<close> does for overlapping arguments.
\<close>

definition copy_into :: "'a slice \<Rightarrow> nat \<Rightarrow> 'a slice \<Rightarrow> 'a list \<Rightarrow> 'a slice" where
  "copy_into parent off dst src =
     (case parent of
        NilSlice \<Rightarrow> NilSlice
      | Slice es sp \<Rightarrow>
          Slice (take off es @ take (min (len dst) (length src)) src @
                 drop (off + min (len dst) (length src)) es) sp)"

definition Clone :: "'a \<Rightarrow> 'a slice \<Rightarrow> 'a slice" where
  "Clone zero slice =
     (if slice = NilSlice then NilSlice
      else copy_into (make_slice zero (len slice) (len slice)) 0
             (make_slice zero (len slice) (len slice)) (elems slice))"


section \<open>Unique\<close>

text \<open>
  \<open>seen\<close> is a \<open>map[T]struct{}\<close>: a map to the one-element type. \<open>result\<close> is made
  with the capacity \<open>len(in)\<close>.
\<close>

function Unique_loop :: "'a slice \<Rightarrow> nat \<Rightarrow> 'a slice \<Rightarrow> ('a \<rightharpoonup> unit) \<Rightarrow> 'a slice" where
  "Unique_loop inp i result seen =
     (if i < len inp then
        (if seen (elems inp ! i) \<noteq> None then Unique_loop inp (i + 1) result seen
         else Unique_loop inp (i + 1) (go_append result [elems inp ! i])
                (seen(elems inp ! i \<mapsto> ())))
      else result)"
  by pat_completeness auto
termination
  by (relation "measure (\<lambda>(inp, i, result, seen). len inp - i)") auto

declare Unique_loop.simps [simp del]

definition Unique :: "'a \<Rightarrow> 'a slice \<Rightarrow> 'a slice" where
  "Unique zero inp = Unique_loop inp 0 (make_slice zero 0 (len inp)) Map.empty"

section \<open>Zip\<close>

record ('a, 'b) Pair =
  First :: 'a
  Second :: 'b

text \<open>
  The index expression \<open>right[idx]\<close> is guarded by the length of \<open>left\<close>, not of
  \<open>right\<close>, so its range check is a branch of the loop.
\<close>

function Zip_loop ::
  "'a slice \<Rightarrow> 'b slice \<Rightarrow> nat \<Rightarrow> ('a, 'b) Pair slice \<Rightarrow> panic + ('a, 'b) Pair slice" where
  "Zip_loop left right idx pairs =
     (if idx < len left then
        (if idx < len right then
           Zip_loop left right (idx + 1)
             (go_append pairs [\<lparr>First = elems left ! idx, Second = elems right ! idx\<rparr>])
         else Inl IndexRange)
      else Inr pairs)"
  by pat_completeness auto
termination
  by (relation "measure (\<lambda>(left, right, idx, pairs). len left - idx)") auto

declare Zip_loop.simps [simp del]

definition Zip ::
  "('a, 'b) Pair \<Rightarrow> 'a slice \<Rightarrow> 'b slice \<Rightarrow> panic + ('a, 'b) Pair slice" where
  "Zip zero left right =
     (if len left \<noteq> len right
      then Inl (Panic ''cannot zip slices of different lengths'')
      else Zip_loop left right 0 (make_slice zero 0 (len left)))"

section \<open>Replace and ReplaceAll\<close>

text \<open>The assignment \<open>in[i] = v\<close> under the guard \<open>i < len(in)\<close>.\<close>

definition set_index :: "'a slice \<Rightarrow> nat \<Rightarrow> 'a \<Rightarrow> 'a slice" where
  "set_index s i v = (case s of NilSlice \<Rightarrow> NilSlice | Slice es sp \<Rightarrow> Slice (es[i := v]) sp)"

lemma len_set_index: "len (set_index s i v) = len s"
  by (cases s) (simp_all add: set_index_def len_def)

text \<open>
  \<open>Replace\<close> writes into the caller's slice; the model returns the slice after the
  loop. The counter \<open>n\<close> is decremented with wrap-around.
\<close>

function Replace_loop :: "'a slice \<Rightarrow> 'a \<Rightarrow> 'a \<Rightarrow> int \<Rightarrow> nat \<Rightarrow> 'a slice" where
  "Replace_loop inp old new n i =
     (if i < len inp then
        (if elems inp ! i = old \<and> n \<noteq> 0
         then Replace_loop (set_index inp i new) old new (wrap64 (n - 1)) (i + 1)
         else Replace_loop inp old new n (i + 1))
      else inp)"
  by pat_completeness auto
termination
  by (relation "measure (\<lambda>(inp, old, new, n, i). len inp - i)") (auto simp: len_set_index)

declare Replace_loop.simps [simp del]

definition Replace :: "'a slice \<Rightarrow> 'a \<Rightarrow> 'a \<Rightarrow> int \<Rightarrow> 'a slice" where
  "Replace inp old new n = Replace_loop inp old new n 0"

definition ReplaceAll :: "'a slice \<Rightarrow> 'a \<Rightarrow> 'a \<Rightarrow> 'a slice" where
  "ReplaceAll inp old new = Replace inp old new (- 1)"

section \<open>Concat\<close>







section \<open>Reference functions on lists\<close>

text \<open>
  \<open>first_seen S xs\<close> walks \<open>xs\<close> from the left and keeps an element when it is neither
  in \<open>S\<close> nor kept before: the stable removal of duplicates that keeps first
  occurrences.
\<close>

fun first_seen :: "'a set \<Rightarrow> 'a list \<Rightarrow> 'a list" where
  "first_seen S [] = []"
| "first_seen S (x # xs) = (if x \<in> S then first_seen S xs else x # first_seen (insert x S) xs)"

text \<open>
  The loop of \<open>Replace\<close> read as a recursion on the list of elements still to visit,
  with the same test, the same store and the same wrapping decrement.
\<close>

fun Replace_list :: "'a \<Rightarrow> 'a \<Rightarrow> int \<Rightarrow> 'a list \<Rightarrow> 'a list" where
  "Replace_list old new n [] = []"
| "Replace_list old new n (x # xs) =
     (if x = old \<and> n \<noteq> 0 then new # Replace_list old new (wrap64 (n - 1)) xs
      else x # Replace_list old new n xs)"

section \<open>Properties of the slice operations\<close>

subsection \<open>Wrap-around, slice expressions and copies\<close>

lemma wrap64_id: "- (2 ^ 63) \<le> x \<Longrightarrow> x \<le> max_int \<Longrightarrow> wrap64 x = x"
  by (simp add: wrap64_def max_int_def)

lemma len_le_cap: "len s \<le> cap s"
  by (simp add: len_def cap_def)

lemma slice_expr_Inr:
  "0 \<le> lo \<Longrightarrow> lo \<le> hi \<Longrightarrow> hi \<le> int (cap s) \<Longrightarrow> \<exists>t. slice_expr s lo hi = Inr t"
  by (simp add: slice_expr_def)



lemma elems_set_index: "i < len s \<Longrightarrow> elems (set_index s i v) = (elems s)[i := v]"
  by (cases s) (simp_all add: set_index_def len_def)





subsection \<open>Remove\<close>

lemma Remove_step_elems:
  assumes "i < len s"
    and "slice_expr s 0 (int i) = Inr front"
    and "slice_expr s (int i + 1) (int (len s)) = Inr rest"
  shows "elems (go_append front (elems rest)) = take i (elems s) @ drop (Suc i) (elems s)"
proof -
  have "elems front = take i (elems s)"
    using elems_slice_expr [OF assms(2)] assms(1) by simp
  moreover have "elems rest = drop (Suc i) (elems s)"
    using elems_slice_expr [OF assms(3)] by (simp add: nat_add_distrib len_def)
  ultimately show ?thesis by (simp add: elems_go_append)
qed

lemma Remove_loop_spec:
  "i \<le> len s \<Longrightarrow>
   \<exists>s'. Remove_loop s x i r = Inr (s', r + int (count_list (drop i (elems s)) x)) \<and>
        elems s' = take i (elems s) @ filter (\<lambda>y. y \<noteq> x) (drop i (elems s))"
proof (induction s x i r rule: Remove_loop.induct)
  case (1 slice item i removed)
  show ?case
  proof (cases "i < len slice")
    case False
    with 1(3) have "i = len slice" by simp
    then show ?thesis
      by (subst Remove_loop.simps) (simp add: len_def)
  next
    case True
    have dr: "drop i (elems slice) = elems slice ! i # drop (Suc i) (elems slice)"
      using True by (simp add: Cons_nth_drop_Suc len_def)
    show ?thesis
    proof (cases "elems slice ! i = item")
      case False
      have "\<exists>s'. Remove_loop slice item (i + 1) removed =
              Inr (s', removed + int (count_list (drop (i + 1) (elems slice)) item)) \<and>
              elems s' = take (i + 1) (elems slice) @
                filter (\<lambda>y. y \<noteq> item) (drop (i + 1) (elems slice))"
        using 1(2) [OF True False] True by simp
      then show ?thesis
        using True False
        by (subst Remove_loop.simps) (simp add: dr take_Suc_conv_app_nth len_def)
    next
      case match: True
      obtain front where f: "slice_expr slice 0 (int i) = Inr front"
        using slice_expr_Inr [of 0 "int i" slice] True len_le_cap [of slice] by auto
      obtain rest where r: "slice_expr slice (int i + 1) (int (len slice)) = Inr rest"
        using slice_expr_Inr [of "int i + 1" "int (len slice)" slice] True len_le_cap [of slice]
        by auto
      let ?s2 = "go_append front (elems rest)"
      have e2: "elems ?s2 = take i (elems slice) @ drop (Suc i) (elems slice)"
        by (rule Remove_step_elems [OF True f r])
      have l2: "i \<le> len ?s2"
        using True by (simp add: len_def e2)
      have d2: "drop i (elems ?s2) = drop (Suc i) (elems slice)"
        using True by (simp add: e2 len_def)
      have t2: "take i (elems ?s2) = take i (elems slice)"
        using True by (simp add: e2 len_def)
      have "\<exists>s'. Remove_loop ?s2 item i (removed + 1) =
              Inr (s', removed + 1 + int (count_list (drop i (elems ?s2)) item)) \<and>
              elems s' = take i (elems ?s2) @ filter (\<lambda>y. y \<noteq> item) (drop i (elems ?s2))"
        using 1(1) [OF True match f r l2] .
      then show ?thesis
        using True match f r
        by (subst Remove_loop.simps) (simp add: dr d2 t2 add.assoc)
    qed
  qed
qed

lemma Remove_loop_absent:
  "\<forall>j. i \<le> j \<and> j < len s \<longrightarrow> elems s ! j \<noteq> x \<Longrightarrow> Remove_loop s x i r = Inr (s, r)"
proof (induction s x i r rule: Remove_loop.induct)
  case (1 slice item i removed)
  show ?case
  proof (cases "i < len slice")
    case False
    then show ?thesis by (subst Remove_loop.simps) simp
  next
    case True
    with 1(3) have ne: "elems slice ! i \<noteq> item" by simp
    have "Remove_loop slice item (i + 1) removed = Inr (slice, removed)"
      using 1(2) [OF True ne] 1(3) by simp
    then show ?thesis
      using True ne by (subst Remove_loop.simps) simp
  qed
qed

text \<open>
  Claim C1. For every slice \<open>s\<close> and item \<open>x\<close>, \<open>Remove(s, x)\<close> returns (it does not
  panic) a slice and a count: the count is the number of occurrences of \<open>x\<close> in \<open>s\<close>;
  the result holds the elements of \<open>s\<close> other than \<open>x\<close> in their order, so it contains
  no \<open>x\<close>, wherever the matches are (adjacent, at the tail); its length plus the count is
  the length of \<open>s\<close>; and when \<open>x\<close> is absent the slice is returned as it is with
  count 0.
\<close>

theorem Remove_removes_every_occurrence:
  "\<exists>s'. Remove s x = Inr (s', int (count_list (elems s) x)) \<and>
        elems s' = filter (\<lambda>y. y \<noteq> x) (elems s) \<and>
        x \<notin> set (elems s') \<and>
        int (len s') + int (count_list (elems s) x) = int (len s) \<and>
        (x \<notin> set (elems s) \<longrightarrow> s' = s \<and> count_list (elems s) x = 0)"
proof -
  obtain s' where r: "Remove s x = Inr (s', int (count_list (elems s) x))"
    and e: "elems s' = filter (\<lambda>y. y \<noteq> x) (elems s)"
    using Remove_loop_spec [of 0 s x 0] by (auto simp: Remove_def)
  have n: "x \<notin> set (elems s')"
    by (simp add: e)
  have "length (filter (\<lambda>y. y \<noteq> x) xs) + count_list xs x = length xs" for xs
    by (induction xs) auto
  from this [of "elems s"]
  have l: "int (len s') + int (count_list (elems s) x) = int (len s)"
    unfolding len_def e by linarith
  have a: "x \<notin> set (elems s) \<longrightarrow> s' = s \<and> count_list (elems s) x = 0"
  proof
    assume ab: "x \<notin> set (elems s)"
    then have "\<forall>j. 0 \<le> j \<and> j < len s \<longrightarrow> elems s ! j \<noteq> x"
      by (auto simp: len_def)
    then have "Remove s x = Inr (s, 0)"
      unfolding Remove_def by (rule Remove_loop_absent)
    with r show "s' = s \<and> count_list (elems s) x = 0" by auto
  qed
  from r e n l a show ?thesis by blast
qed

theorem Remove_removes_every_occurrence_witness:
  "(\<exists>s'. Remove (Slice [1, 2, 2, 3, 2 :: int] []) 2 = Inr (s', 3) \<and> elems s' = [1, 3] \<and>
         int (len s') + 3 = 5) \<and>
   (\<exists>s'. Remove (Slice [1, 2, 3 :: int] [7]) 4 = Inr (s', 0) \<and> s' = Slice [1, 2, 3] [7])"
  using Remove_removes_every_occurrence [of "Slice [1, 2, 2, 3, 2 :: int] []" 2]
    Remove_removes_every_occurrence [of "Slice [1, 2, 3 :: int] [7]" 4]
  by (auto simp: len_def)


subsection \<open>Filter, FindAll, Clone and TakeIf\<close>

lemma go_append_not_nil: "go_append s [x] \<noteq> NilSlice"
  by (cases s) (simp_all add: go_append_def)

lemma Filter_loop_not_nil: "res \<noteq> NilSlice \<Longrightarrow> Filter_loop s fn i res \<noteq> NilSlice"
proof (induction s fn i res rule: Filter_loop.induct)
  case (1 s fn i res)
  show ?case
  proof (cases "i < len s")
    case True
    have "(if fn (elems s ! i) then go_append res [elems s ! i] else res) \<noteq> NilSlice"
      using 1(2) by (simp add: go_append_not_nil)
    from 1(1) [OF True this] show ?thesis
      using True by (subst Filter_loop.simps) simp
  next
    case False
    then show ?thesis
      using 1(2) by (subst Filter_loop.simps) simp
  qed
qed


lemma Filter_loop_no_match:
  "\<forall>x\<in>set (elems s). \<not> fn x \<Longrightarrow> Filter_loop s fn i res = res"
proof (induction s fn i res rule: Filter_loop.induct)
  case (1 s fn i res)
  show ?case
  proof (cases "i < len s")
    case True
    then have "\<not> fn (elems s ! i)"
      using 1(2) by (simp add: len_def)
    with 1(1) [OF True 1(2)] show ?thesis
      using True by (subst Filter_loop.simps) simp
  next
    case False
    then show ?thesis
      by (subst Filter_loop.simps) simp
  qed
qed

lemma FindAll_loop_eq: "FindAll_loop s fn i res = Filter_loop s fn i res"
proof (induction s fn i res rule: Filter_loop.induct)
  case (1 s fn i res)
  show ?case
  proof (cases "i < len s")
    case True
    with 1 [OF True] show ?thesis
      by (subst FindAll_loop.simps, subst Filter_loop.simps) simp
  next
    case False
    then show ?thesis
      by (subst FindAll_loop.simps, subst Filter_loop.simps) simp
  qed
qed

lemma FindAll_eq_Filter: "FindAll s fn = Filter s fn"
  by (simp add: FindAll_def Filter_def FindAll_loop_eq)


lemma copy_into_not_nil: "parent \<noteq> NilSlice \<Longrightarrow> copy_into parent off dst src \<noteq> NilSlice"
  by (cases parent) (simp_all add: copy_into_def)

text \<open>
  Claim C9. \<open>Filter\<close> and \<open>FindAll\<close> never return nil: on a nil input, and on any
  input none of whose elements satisfies the predicate, they return the empty slice
  that is not nil. \<open>Clone\<close> of nil is nil (and of a slice that is not nil is not nil).
\<close>

theorem nil_normalized_by_Filter_preserved_by_Clone:
  "Filter s fn \<noteq> NilSlice \<and> FindAll s fn \<noteq> NilSlice \<and>
   Filter NilSlice fn = Slice [] [] \<and> FindAll NilSlice fn = Slice [] [] \<and>
   ((\<forall>x\<in>set (elems s). \<not> fn x) \<longrightarrow> Filter s fn = Slice [] [] \<and> FindAll s fn = Slice [] []) \<and>
   Clone zero NilSlice = NilSlice \<and>
   (s \<noteq> NilSlice \<longrightarrow> Clone zero s \<noteq> NilSlice)"
proof -
  have a: "Filter s fn \<noteq> NilSlice" for s :: "'a slice"
    by (simp add: Filter_def empty_slice_def Filter_loop_not_nil)
  have b: "(\<forall>x\<in>set (elems s). \<not> fn x) \<longrightarrow> Filter s fn = Slice [] []" for s :: "'a slice"
    by (simp add: Filter_def empty_slice_def Filter_loop_no_match)
  have c: "Filter NilSlice fn = Slice [] []"
    using b [of NilSlice] by simp
  have d: "Clone zero NilSlice = NilSlice"
    by (simp add: Clone_def)
  have e: "s \<noteq> NilSlice \<longrightarrow> Clone zero s \<noteq> NilSlice"
    by (simp add: Clone_def copy_into_not_nil make_slice_def)
  from a [of s] b [of s] c d e show ?thesis
    by (simp add: FindAll_eq_Filter)
qed

theorem nil_normalized_by_Filter_preserved_by_Clone_witness:
  "Filter (Slice [1, 3, 5 :: nat] [0]) even = Slice [] [] \<and>
   FindAll (Slice [1, 3, 5 :: nat] [0]) even = Slice [] [] \<and>
   Filter (NilSlice :: nat slice) even = Slice [] [] \<and>
   Clone (0 :: nat) NilSlice = NilSlice \<and>
   Clone (0 :: nat) (Slice [1, 3, 5] [0]) \<noteq> NilSlice"
  using nil_normalized_by_Filter_preserved_by_Clone [of "Slice [1, 3, 5 :: nat] [0]" even 0]
  by simp




subsection \<open>Zip\<close>

lemma Zip_loop_pairs:
  "len left = len right \<Longrightarrow>
   \<exists>ps. Zip_loop left right idx pairs = Inr ps \<and>
        elems ps = elems pairs @
          map (\<lambda>(a, b). \<lparr>First = a, Second = b\<rparr>)
            (zip (drop idx (elems left)) (drop idx (elems right)))"
proof (induction left right idx pairs rule: Zip_loop.induct)
  case (1 left right idx pairs)
  show ?case
  proof (cases "idx < len left")
    case True
    then have r: "idx < len right"
      using 1(2) by simp
    have dl: "drop idx (elems left) = elems left ! idx # drop (Suc idx) (elems left)"
      using True by (simp add: Cons_nth_drop_Suc len_def)
    have dr: "drop idx (elems right) = elems right ! idx # drop (Suc idx) (elems right)"
      using r by (simp add: Cons_nth_drop_Suc len_def)
    from 1(1) [OF True r 1(2)] show ?thesis
      using True r by (subst Zip_loop.simps) (simp add: dl dr elems_go_append)
  next
    case False
    then show ?thesis
      by (subst Zip_loop.simps) (simp add: len_def)
  qed
qed

text \<open>
  Claim C5. \<open>Zip(left, right)\<close> panics if and only if the lengths differ. When they are
  equal it returns a slice of that length whose element at each index \<open>i\<close> is the pair
  of \<open>left[i]\<close> and \<open>right[i]\<close>.
\<close>

theorem Zip_strict:
  "((\<exists>e. Zip zero left right = Inl e) \<longleftrightarrow> len left \<noteq> len right) \<and>
   (len left = len right \<longrightarrow>
      (\<exists>pairs. Zip zero left right = Inr pairs \<and> len pairs = len left \<and>
         (\<forall>i<len left.
            elems pairs ! i = \<lparr>First = elems left ! i, Second = elems right ! i\<rparr>)))"
proof (cases "len left = len right")
  case False
  then show ?thesis
    by (simp add: Zip_def)
next
  case True
  obtain ps where z: "Zip_loop left right 0 (make_slice zero 0 (len left)) = Inr ps"
    and e: "elems ps = map (\<lambda>(a, b). \<lparr>First = a, Second = b\<rparr>) (zip (elems left) (elems right))"
    using Zip_loop_pairs [OF True, of 0 "make_slice zero 0 (len left)"]
    by (auto simp: make_slice_def)
  have l: "len ps = len left"
    using True by (simp add: len_def e)
  have n: "\<forall>i<len left. elems ps ! i = \<lparr>First = elems left ! i, Second = elems right ! i\<rparr>"
    using True by (simp add: e len_def)
  from z l n True show ?thesis
    by (simp add: Zip_def)
qed

theorem Zip_strict_witness:
  "(\<exists>e. Zip \<lparr>First = [], Second = 0\<rparr> (Slice [''a'', ''b'', ''c''] []) (Slice [1, 2 :: int] []) = Inl e) \<and>
   (\<exists>pairs. Zip \<lparr>First = [], Second = 0\<rparr> (Slice [''a'', ''b''] []) (Slice [1, 2 :: int] []) = Inr pairs \<and>
      len pairs = 2 \<and>
      elems pairs ! 0 = \<lparr>First = ''a'', Second = 1\<rparr> \<and>
      elems pairs ! 1 = \<lparr>First = ''b'', Second = 2\<rparr>)"
  using Zip_strict [of "\<lparr>First = [], Second = 0\<rparr>" "Slice [''a'', ''b'', ''c''] []" "Slice [1, 2 :: int] []"]
    Zip_strict [of "\<lparr>First = [], Second = 0\<rparr>" "Slice [''a'', ''b''] []" "Slice [1, 2 :: int] []"]
  by (auto simp: len_def)

subsection \<open>Unique\<close>

lemma elems_Unique_loop:
  "elems (Unique_loop inp i result seen) =
   elems result @ first_seen (dom seen) (drop i (elems inp))"
proof (induction inp i result seen rule: Unique_loop.induct)
  case (1 inp i result seen)
  show ?case
  proof (cases "i < len inp")
    case True
    then have dr: "drop i (elems inp) = elems inp ! i # drop (Suc i) (elems inp)"
      by (simp add: Cons_nth_drop_Suc len_def)
    show ?thesis
    proof (cases "seen (elems inp ! i) \<noteq> None")
      case dup: True
      then have m: "elems inp ! i \<in> dom seen" by (simp add: dom_def)
      have "Unique_loop inp i result seen = Unique_loop inp (i + 1) result seen"
        using True dup by (subst Unique_loop.simps) simp
      also have "elems \<dots> = elems result @ first_seen (dom seen) (drop (i + 1) (elems inp))"
        by (rule 1(1) [OF True dup])
      finally show ?thesis
        using m by (simp add: dr)
    next
      case new: False
      then have m: "elems inp ! i \<notin> dom seen" by (simp add: dom_def)
      have d: "dom (seen(elems inp ! i \<mapsto> ())) = insert (elems inp ! i) (dom seen)"
        by simp
      have "Unique_loop inp i result seen =
            Unique_loop inp (i + 1) (go_append result [elems inp ! i])
              (seen(elems inp ! i \<mapsto> ()))"
        using True new by (subst Unique_loop.simps) (simp only: if_True if_False)
      also have "elems \<dots> = elems (go_append result [elems inp ! i]) @
          first_seen (dom (seen(elems inp ! i \<mapsto> ()))) (drop (i + 1) (elems inp))"
        by (rule 1(2) [OF True new])
      finally show ?thesis
        using m unfolding d by (simp add: dr elems_go_append)
    qed
  next
    case False
    then show ?thesis
      by (subst Unique_loop.simps) (simp add: len_def)
  qed
qed

lemma elems_Unique: "elems (Unique zero inp) = first_seen {} (elems inp)"
  by (simp add: Unique_def elems_Unique_loop make_slice_def)

lemma set_first_seen: "set (first_seen S xs) = set xs - S"
  by (induction xs arbitrary: S) auto

lemma distinct_first_seen: "distinct (first_seen S xs)"
  by (induction xs arbitrary: S) (auto simp: set_first_seen)

lemma first_seen_distinct: "distinct ys \<Longrightarrow> set ys \<inter> S = {} \<Longrightarrow> first_seen S ys = ys"
  by (induction ys arbitrary: S) auto

lemma first_seen_idem: "first_seen {} (first_seen {} xs) = first_seen {} xs"
  by (rule first_seen_distinct) (simp_all add: distinct_first_seen)

lemma first_seen_positions:
  "first_seen S xs =
   map ((!) xs) (filter (\<lambda>i. xs ! i \<notin> S \<union> set (take i xs)) [0..<length xs])"
proof (induction xs arbitrary: S)
  case Nil
  show ?case by simp
next
  case (Cons x xs)
  have up: "[0..<Suc (length xs)] = 0 # map Suc [0..<length xs]"
    by (simp add: upt_conv_Cons map_Suc_upt del: upt_Suc)
  show ?case
  proof (cases "x \<in> S")
    case True
    then have P: "(\<lambda>i. xs ! i \<notin> S \<and> xs ! i \<noteq> x \<and> xs ! i \<notin> set (take i xs)) =
        (\<lambda>i. xs ! i \<notin> S \<and> xs ! i \<notin> set (take i xs))"
      by auto
    show ?thesis
      using True Cons [of S] by (simp add: up filter_map comp_def P del: upt_Suc)
  next
    case False
    have P: "(\<lambda>i. xs ! i \<notin> S \<and> xs ! i \<noteq> x \<and> xs ! i \<notin> set (take i xs)) =
        (\<lambda>i. xs ! i \<noteq> x \<and> xs ! i \<notin> S \<and> xs ! i \<notin> set (take i xs))"
      by auto
    show ?thesis
      using False Cons [of "insert x S"] by (simp add: up filter_map comp_def P del: upt_Suc)
  qed
qed

text \<open>
  Claim C8. \<open>Unique\<close> is idempotent: \<open>Unique(Unique(s))\<close> has the same elements in the
  same order as \<open>Unique(s)\<close>. \<open>Unique(s)\<close> has no duplicates, has the values of \<open>s\<close>,
  and is \<open>s\<close> restricted to the positions whose value does not occur at an earlier
  position: the first occurrence of each value, in first-seen order.
\<close>

theorem Unique_idempotent_keeps_first_occurrences:
  "elems (Unique zero' (Unique zero s)) = elems (Unique zero s) \<and>
   distinct (elems (Unique zero s)) \<and>
   set (elems (Unique zero s)) = set (elems s) \<and>
   elems (Unique zero s) =
     map ((!) (elems s))
       (filter (\<lambda>i. elems s ! i \<notin> set (take i (elems s))) [0..<len s])"
proof (intro conjI)
  show "elems (Unique zero' (Unique zero s)) = elems (Unique zero s)"
    by (simp add: elems_Unique first_seen_idem)
  show "distinct (elems (Unique zero s))"
    by (simp add: elems_Unique distinct_first_seen)
  show "set (elems (Unique zero s)) = set (elems s)"
    by (simp add: elems_Unique set_first_seen)
  show "elems (Unique zero s) =
     map ((!) (elems s))
       (filter (\<lambda>i. elems s ! i \<notin> set (take i (elems s))) [0..<len s])"
    using first_seen_positions [of "{}" "elems s"]
    by (simp add: elems_Unique len_def)
qed

subsection \<open>Replace\<close>

lemma length_Replace_list: "length (Replace_list old new n xs) = length xs"
  by (induction xs arbitrary: n) simp_all

lemma elems_Replace_loop:
  "i \<le> len inp \<Longrightarrow>
   elems (Replace_loop inp old new n i) =
   take i (elems inp) @ Replace_list old new n (drop i (elems inp))"
proof (induction inp old new n i rule: Replace_loop.induct)
  case (1 inp old new n i)
  show ?case
  proof (cases "i < len inp")
    case False
    with 1(3) show ?thesis
      by (subst Replace_loop.simps) (simp add: len_def)
  next
    case True
    then have dr: "drop i (elems inp) = elems inp ! i # drop (Suc i) (elems inp)"
      by (simp add: Cons_nth_drop_Suc len_def)
    show ?thesis
    proof (cases "elems inp ! i = old \<and> n \<noteq> 0")
      case hit: True
      let ?inp' = "set_index inp i new"
      have "Replace_loop inp old new n i = Replace_loop ?inp' old new (wrap64 (n - 1)) (i + 1)"
        using True hit by (subst Replace_loop.simps) simp
      also have "elems \<dots> = take (i + 1) (elems ?inp') @
          Replace_list old new (wrap64 (n - 1)) (drop (i + 1) (elems ?inp'))"
        using True by (intro 1(1) [OF True hit]) (simp add: len_set_index)
      also have "\<dots> = take i (elems inp) @ new #
          Replace_list old new (wrap64 (n - 1)) (drop (Suc i) (elems inp))"
        using True by (simp add: elems_set_index take_Suc_conv_app_nth len_def)
      finally show ?thesis
        using hit by (simp add: dr)
    next
      case miss: False
      have "Replace_loop inp old new n i = Replace_loop inp old new n (i + 1)"
        using True miss by (subst Replace_loop.simps) auto
      also have "elems \<dots> = take (i + 1) (elems inp) @
          Replace_list old new n (drop (i + 1) (elems inp))"
        using True by (intro 1(2) [OF True miss]) simp
      finally show ?thesis
        using True miss by (auto simp: dr take_Suc_conv_app_nth len_def)
    qed
  qed
qed

lemma Replace_loop_zero: "Replace_loop inp old new 0 i = inp"
proof (induction inp old new "0 :: int" i rule: Replace_loop.induct)
  case (1 inp old new i)
  show ?case
  proof (cases "i < len inp")
    case True
    with 1(2) [OF True] show ?thesis
      by (subst Replace_loop.simps) simp
  next
    case False
    then show ?thesis
      by (subst Replace_loop.simps) simp
  qed
qed

lemma Replace_list_budget:
  "0 \<le> n \<Longrightarrow> n \<le> max_int \<Longrightarrow> j < length xs \<Longrightarrow>
   Replace_list old new n xs ! j =
   (if xs ! j = old \<and> int (count_list (take j xs) old) < n then new else xs ! j)"
proof (induction xs arbitrary: n j)
  case Nil
  then show ?case by simp
next
  case (Cons x xs)
  have w: "n \<noteq> 0 \<Longrightarrow> wrap64 (n - 1) = n - 1"
    using Cons.prems(1,2) by (intro wrap64_id) (simp_all add: max_int_def)
  show ?case
  proof (cases j)
    case 0
    then show ?thesis
      using Cons.prems(1) by auto
  next
    case (Suc j')
    then have j': "j' < length xs"
      using Cons.prems(3) by simp
    show ?thesis
    proof (cases "x = old \<and> n \<noteq> 0")
      case True
      then have "0 \<le> n - 1" "n - 1 \<le> max_int"
        using Cons.prems(1,2) by simp_all
      from Cons.IH [OF this j'] show ?thesis
        using True Suc w by auto
    next
      case False
      from Cons.IH [OF Cons.prems(1,2) j'] show ?thesis
        using False Suc Cons.prems(1) by auto
    qed
  qed
qed

lemma Replace_list_unlimited:
  "n < 0 \<Longrightarrow> - (2 ^ 63) \<le> n - int (length xs) \<Longrightarrow>
   Replace_list old new n xs = map (\<lambda>x. if x = old then new else x) xs"
proof (induction xs arbitrary: n)
  case Nil
  show ?case by simp
next
  case (Cons x xs)
  have w: "wrap64 (n - 1) = n - 1"
    using Cons.prems by (intro wrap64_id) (simp_all add: max_int_def)
  have "Replace_list old new (n - 1) xs = map (\<lambda>x. if x = old then new else x) xs"
    using Cons.prems by (intro Cons.IH) simp_all
  moreover have "Replace_list old new n xs = map (\<lambda>x. if x = old then new else x) xs"
    using Cons.prems by (intro Cons.IH) simp_all
  ultimately show ?case
    using Cons.prems(1) by (simp add: w)
qed

lemma Replace_list_keeps_others:
  "j < length xs \<Longrightarrow> xs ! j \<noteq> old \<Longrightarrow> Replace_list old new n xs ! j = xs ! j"
proof (induction xs arbitrary: n j)
  case Nil
  then show ?case by simp
next
  case (Cons x xs)
  then show ?case by (cases j) auto
qed

lemma first_occurrences_count:
  "0 \<le> k \<Longrightarrow>
   int (length (filter (\<lambda>j. xs ! j = old \<and> int (count_list (take j xs) old) < k) [0..<length xs])) =
   min k (int (count_list xs old))"
proof (induction xs rule: rev_induct)
  case Nil
  then show ?case by simp
next
  case (snoc x xs)
  have "filter (\<lambda>j. (xs @ [x]) ! j = old \<and> int (count_list (take j (xs @ [x])) old) < k)
          [0..<length xs] =
        filter (\<lambda>j. xs ! j = old \<and> int (count_list (take j xs) old) < k) [0..<length xs]"
    by (intro filter_cong) (auto simp: nth_append)
  with snoc show ?case
    by (auto simp: nth_append)
qed

text \<open>
  Claim C6. \<open>Replace(s, old, new, maxCount)\<close> visits \<open>s\<close> from the left. With
  \<open>maxCount = 0\<close> the slice is unchanged. With \<open>maxCount = k > 0\<close> the element at a
  position is replaced by \<open>new\<close> exactly when it equals \<open>old\<close> and fewer than \<open>k\<close>
  occurrences of \<open>old\<close> precede it, and there are \<open>min(k, count(s, old))\<close> such
  positions: the first ones. With \<open>maxCount = -1\<close> every occurrence is replaced, and
  \<open>ReplaceAll\<close> is that call. Whatever the count, the length is kept and an element
  other than \<open>old\<close> is never modified.
\<close>

theorem Replace_first_occurrences:
  "Replace s old new 0 = s \<and>
   (0 < k \<and> k \<le> max_int \<longrightarrow>
      (\<forall>j<len s. elems (Replace s old new k) ! j =
         (if elems s ! j = old \<and> int (count_list (take j (elems s)) old) < k
          then new else elems s ! j)) \<and>
      int (length (filter
             (\<lambda>j. elems s ! j = old \<and> int (count_list (take j (elems s)) old) < k)
             [0..<len s])) = min k (int (count_list (elems s) old))) \<and>
   (int (len s) \<le> max_int \<longrightarrow>
      elems (Replace s old new (- 1)) = map (\<lambda>x. if x = old then new else x) (elems s)) \<and>
   ReplaceAll s old new = Replace s old new (- 1) \<and>
   len (Replace s old new n) = len s \<and>
   (\<forall>j<len s. elems s ! j \<noteq> old \<longrightarrow> elems (Replace s old new n) ! j = elems s ! j)"
proof -
  have e: "elems (Replace s old new m) = Replace_list old new m (elems s)" for m
    using elems_Replace_loop [of 0 s old new m] by (simp add: Replace_def)
  have zero: "Replace s old new 0 = s"
    by (simp add: Replace_def Replace_loop_zero)
  have pos: "0 < k \<and> k \<le> max_int \<longrightarrow>
      (\<forall>j<len s. elems (Replace s old new k) ! j =
         (if elems s ! j = old \<and> int (count_list (take j (elems s)) old) < k
          then new else elems s ! j)) \<and>
      int (length (filter
             (\<lambda>j. elems s ! j = old \<and> int (count_list (take j (elems s)) old) < k)
             [0..<len s])) = min k (int (count_list (elems s) old))"
  proof (intro impI conjI allI)
    assume k: "0 < k \<and> k \<le> max_int"
    show "int (length (filter
             (\<lambda>j. elems s ! j = old \<and> int (count_list (take j (elems s)) old) < k)
             [0..<len s])) = min k (int (count_list (elems s) old))"
      using k first_occurrences_count [of k "elems s" old] by (simp add: len_def)
    fix j
    assume "j < len s"
    then show "elems (Replace s old new k) ! j =
         (if elems s ! j = old \<and> int (count_list (take j (elems s)) old) < k
          then new else elems s ! j)"
      using k Replace_list_budget [of k j "elems s" old new] by (simp add: e len_def)
  qed
  have all: "int (len s) \<le> max_int \<longrightarrow>
      elems (Replace s old new (- 1)) = map (\<lambda>x. if x = old then new else x) (elems s)"
    using Replace_list_unlimited [of "- 1" "elems s" old new]
    by (simp add: e len_def max_int_def)
  have ra: "ReplaceAll s old new = Replace s old new (- 1)"
    by (simp add: ReplaceAll_def)
  have l: "len (Replace s old new n) = len s"
    by (simp add: len_def e length_Replace_list)
  have others: "\<forall>j<len s. elems s ! j \<noteq> old \<longrightarrow> elems (Replace s old new n) ! j = elems s ! j"
    by (simp add: e len_def Replace_list_keeps_others)
  from zero pos all ra l others show ?thesis
    by blast
qed

theorem Replace_first_occurrences_witness:
  "(0 :: int) < 2 \<and> 2 \<le> max_int \<and>
   elems (Replace (Slice [0, 1, 2, 3, 0, 1, 2, 3, 0, 1, 2, 3 :: int] []) 3 4 2) ! 3 = 4 \<and>
   elems (Replace (Slice [0, 1, 2, 3, 0, 1, 2, 3, 0, 1, 2, 3 :: int] []) 3 4 2) ! 7 = 4 \<and>
   elems (Replace (Slice [0, 1, 2, 3, 0, 1, 2, 3, 0, 1, 2, 3 :: int] []) 3 4 2) ! 11 = 3 \<and>
   elems (Replace (Slice [0, 1, 2, 3, 0, 1, 2, 3, 0, 1, 2, 3 :: int] []) 3 4 2) ! 4 = 0 \<and>
   elems (Replace (Slice [0, 1, 2, 3, 0, 1, 2, 3, 0, 1, 2, 3 :: int] []) 3 4 (- 1)) =
     [0, 1, 2, 4, 0, 1, 2, 4, 0, 1, 2, 4]"
  using Replace_first_occurrences
    [of "Slice [0, 1, 2, 3, 0, 1, 2, 3, 0, 1, 2, 3 :: int] []" 3 4 2 0]
  by (simp add: max_int_def len_def)

subsection \<open>Insert\<close>













subsection \<open>Chunk and Concat\<close>










end
